theory Spec2Isabelle
  imports Main
begin

section \<open>The engine's terms, as Z3CHCInterface.cpp reads them\<close>

text \<open>
  The file under verification is \<^verbatim>\<open>libsmtutil/Z3CHCInterface.cpp\<close>. It reads the
  engine's terms (\<^verbatim>\<open>z3::expr\<close>) through a handful of accessors: \<^verbatim>\<open>id()\<close>,
  \<^verbatim>\<open>is_app()\<close>, \<^verbatim>\<open>num_args()\<close>, \<^verbatim>\<open>arg(i)\<close>, \<^verbatim>\<open>decl()\<close>, \<^verbatim>\<open>decl_kind()\<close>,
  \<^verbatim>\<open>name().str()\<close> and \<^verbatim>\<open>to_string()\<close>. A term is modelled as a finite tree whose
  nodes carry the engine's numeric id, so a shared sub-proof of the DAG is a subtree that
  occurs several times under one id. No theorem below assumes that equal ids mean equal
  subtrees. Of the kinds of declarations the file tests two; \<open>Z3_OP_OTHER\<close> stands for
  every kind that is neither tested nor used in the samples.
\<close>

datatype Z3_decl_kind =
  Z3_OP_FALSE | Z3_OP_PR_HYPER_RESOLVE | Z3_OP_UNINTERPRETED | Z3_OP_OTHER

datatype func_decl = Func_decl (decl_kind: Z3_decl_kind) (decl_name: string)

text \<open>
  \<open>App i d as\<close> is an application (numerals included) with id \<open>i\<close>, declaration \<open>d\<close>
  and arguments \<open>as\<close>. The other terms are bound variables and quantifiers
  (\<open>Quantifier i xs b\<close> binds \<open>xs\<close> in the body \<open>b\<close>); of these the extraction only
  ever reads the id and \<^verbatim>\<open>is_app()\<close>.
\<close>

datatype expr = App nat func_decl "expr list" | Var nat | Quantifier nat "expr list" expr

text \<open>
  The two ways the file can fail. \<^verbatim>\<open>smtAssert\<close> throws an \<^verbatim>\<open>SMTLogicError\<close>, which
  nothing in the file catches; it is tagged with the source line of the assertion, as
  the thrown object is. The engine's accessors are the library's, not this file's; they
  check their arguments and raise \<^verbatim>\<open>z3::exception\<close> with the engine's error code:
  \<^verbatim>\<open>arg(i)\<close> with \<open>i\<close> not below \<^verbatim>\<open>num_args()\<close> gives \<^verbatim>\<open>Z3_IOB\<close> (index out of
  bounds), and \<^verbatim>\<open>decl()\<close> or \<^verbatim>\<open>arg(i)\<close> on a term that is not an application gives
  \<^verbatim>\<open>Z3_INVALID_ARG\<close>.
\<close>

datatype Z3_error_code = Z3_IOB | Z3_INVALID_ARG

datatype error = SMTLogicError nat | Z3Exception Z3_error_code

definition ebind :: "error + 'a \<Rightarrow> ('a \<Rightarrow> error + 'b) \<Rightarrow> error + 'b" where
  "ebind m f = (case m of Inl e \<Rightarrow> Inl e | Inr x \<Rightarrow> f x)"

text \<open>
  Modelled from the spec: the macro \<^verbatim>\<open>smtAssert\<close> (libsmtutil/Exceptions.h is not part of
  the sources at hand). A contract violation is fatal and is never caught; the second
  argument is the line of the assertion in Z3CHCInterface.cpp.
\<close>

definition smtAssert :: "bool \<Rightarrow> nat \<Rightarrow> error + unit" where
  "smtAssert condition line = (if condition then Inr () else Inl (SMTLogicError line))"

fun id_of :: "expr \<Rightarrow> nat" where
  "id_of (App i d as) = i"
| "id_of (Var i) = i"
| "id_of (Quantifier i xs b) = i"

fun is_app :: "expr \<Rightarrow> bool" where
  "is_app (App i d as) = True"
| "is_app (Var i) = False"
| "is_app (Quantifier i xs b) = False"

fun args_of :: "expr \<Rightarrow> expr list" where
  "args_of (App i d as) = as"
| "args_of (Var i) = []"
| "args_of (Quantifier i xs b) = []"

text \<open>
  \<^verbatim>\<open>num_args()\<close> is only ever called on an application in this file (after an
  \<^verbatim>\<open>smtAssert(is_app())\<close> or behind \<^verbatim>\<open>is_app() &&\<close>), so it is the length of the
  argument list.
\<close>

definition num_args :: "expr \<Rightarrow> nat" where
  "num_args e = length (args_of e)"

definition arg :: "expr \<Rightarrow> nat \<Rightarrow> error + expr" where
  "arg e i =
     (if \<not> is_app e then Inl (Z3Exception Z3_INVALID_ARG)
      else if i < num_args e then Inr (args_of e ! i)
      else Inl (Z3Exception Z3_IOB))"

fun decl :: "expr \<Rightarrow> error + func_decl" where
  "decl (App i d as) = Inr d"
| "decl (Var i) = Inl (Z3Exception Z3_INVALID_ARG)"
| "decl (Quantifier i xs b) = Inl (Z3Exception Z3_INVALID_ARG)"

section \<open>fact, name, arguments (lines 180 to 201)\<close>

definition fact_of :: "expr \<Rightarrow> error + expr" where
  "fact_of node =
     ebind (smtAssert (is_app node) 182) (\<lambda>_.
       if num_args node = 0 then Inr node
       else arg node (num_args node - 1))"

definition name :: "expr \<Rightarrow> error + string" where
  "name predicate =
     ebind (smtAssert (is_app predicate) 190) (\<lambda>_.
       ebind (decl predicate) (\<lambda>d. Inr (decl_name d)))"

text \<open>
  The loop of \<^verbatim>\<open>arguments\<close>: \<open>i\<close> runs from 0 while \<open>i < num_args\<close>, and each
  \<^verbatim>\<open>arg(i)\<close> is rendered by the engine's \<^verbatim>\<open>to_string\<close>, which is a parameter of the
  model.
\<close>

function arguments_from ::
  "(expr \<Rightarrow> string) \<Rightarrow> expr \<Rightarrow> nat \<Rightarrow> string list \<Rightarrow> error + string list" where
  "arguments_from to_string predicate i args =
     (if i < num_args predicate then
        (case arg predicate i of
           Inl e \<Rightarrow> Inl e
         | Inr a \<Rightarrow> arguments_from to_string predicate (i + 1) (args @ [to_string a]))
      else Inr args)"
  by pat_completeness auto
termination
  by (relation "measure (\<lambda>(t, p, i, a). num_args p - i)") auto

declare arguments_from.simps [simp del]

definition arguments :: "(expr \<Rightarrow> string) \<Rightarrow> expr \<Rightarrow> error + string list" where
  "arguments to_string predicate =
     ebind (smtAssert (is_app predicate) 196) (\<lambda>_.
       arguments_from to_string predicate 0 [])"

section \<open>The counterexample graph and its extraction (lines 128 to 178)\<close>

record CexGraph =
  nodes :: "nat \<rightharpoonup> string \<times> string list"
  edges :: "nat \<rightharpoonup> nat list"

definition empty_graph :: CexGraph where
  "empty_graph = \<lparr>nodes = Map.empty, edges = Map.empty\<rparr>"

record loop_state =
  proofStack :: "expr list"
  visited :: "nat set"
  graph :: CexGraph

text \<open>
  The node entry \<^verbatim>\<open>{name(fact(e)), arguments(fact(e))}\<close>; a braced list is evaluated
  left to right.
\<close>

definition cexNode :: "(expr \<Rightarrow> string) \<Rightarrow> expr \<Rightarrow> error + string \<times> string list" where
  "cexNode to_string e =
     ebind (fact_of e) (\<lambda>f. ebind (name f) (\<lambda>n.
       ebind (fact_of e) (\<lambda>f'. ebind (arguments to_string f') (\<lambda>as. Inr (n, as)))))"

text \<open>\<^verbatim>\<open>graph.edges[k].push_back(c)\<close>: \<^verbatim>\<open>operator[]\<close> makes an empty list at a new key.\<close>

definition edges_at :: "CexGraph \<Rightarrow> nat \<Rightarrow> nat list" where
  "edges_at g k = (case edges g k of None \<Rightarrow> [] | Some cs \<Rightarrow> cs)"

definition push_edge :: "nat \<Rightarrow> nat \<Rightarrow> CexGraph \<Rightarrow> CexGraph" where
  "push_edge k c g = g\<lparr>edges := (edges g)(k \<mapsto> edges_at g k @ [c])\<rparr>"

text \<open>The body of the \<^verbatim>\<open>for\<close> loop, lines 159 to 172, for one premise \<open>child\<close>.\<close>

definition visitChild ::
  "(expr \<Rightarrow> string) \<Rightarrow> expr \<Rightarrow> expr \<Rightarrow> loop_state \<Rightarrow> error + loop_state" where
  "visitChild to_string proofNode child s =
     (let s1 = (if id_of child \<notin> visited s
                then s\<lparr>visited := insert (id_of child) (visited s),
                       proofStack := child # proofStack s\<rparr>
                else s)
      in ebind
           (if nodes (graph s1) (id_of child) = None
            then ebind (cexNode to_string child) (\<lambda>entry.
                   Inr (s1\<lparr>graph := (graph s1)
                          \<lparr>nodes := (nodes (graph s1))(id_of child \<mapsto> entry),
                           edges := (edges (graph s1))(id_of child \<mapsto> [])\<rparr>\<rparr>))
            else Inr s1)
           (\<lambda>s2. Inr (s2\<lparr>graph := push_edge (id_of proofNode) (id_of child) (graph s2)\<rparr>)))"

text \<open>
  The \<^verbatim>\<open>for\<close> loop, line 157: \<open>i\<close> starts at 1 and runs while
  \<open>i < num_args - 1\<close>. The subtraction is unsigned, and is reached only after
  \<^verbatim>\<open>smtAssert(num_args() > 0)\<close>, so it does not wrap.
\<close>

function forLoop ::
  "(expr \<Rightarrow> string) \<Rightarrow> expr \<Rightarrow> nat \<Rightarrow> loop_state \<Rightarrow> error + loop_state" where
  "forLoop to_string proofNode i s =
     (if i < num_args proofNode - 1 then
        (case arg proofNode i of
           Inl e \<Rightarrow> Inl e
         | Inr child \<Rightarrow>
             (case visitChild to_string proofNode child s of
                Inl e \<Rightarrow> Inl e
              | Inr s' \<Rightarrow> forLoop to_string proofNode (i + 1) s'))
      else Inr s)"
  by pat_completeness auto
termination
  by (relation "measure (\<lambda>(t, p, i, s). num_args p - 1 - i)") auto

declare forLoop.simps [simp del]

definition is_hyper_resolve :: "expr \<Rightarrow> bool" where
  "is_hyper_resolve e =
     (is_app e \<and> (case decl e of Inl x \<Rightarrow> False
                               | Inr d \<Rightarrow> decl_kind d = Z3_OP_PR_HYPER_RESOLVE))"

text \<open>
  The premises of a hyper-resolution node, by their positions, and the \<^verbatim>\<open>for\<close> loop
  as a left-to-right pass over a list of children.
\<close>

definition premises_of :: "expr \<Rightarrow> expr list" where
  "premises_of p = map (\<lambda>i. args_of p ! i) [1..<num_args p - 1]"

fun visitChildren ::
  "(expr \<Rightarrow> string) \<Rightarrow> expr \<Rightarrow> expr list \<Rightarrow> loop_state \<Rightarrow> error + loop_state" where
  "visitChildren to_string p [] s = Inr s"
| "visitChildren to_string p (c # cs) s =
     (case visitChild to_string p c s of
        Inl e \<Rightarrow> Inl e
      | Inr s' \<Rightarrow> visitChildren to_string p cs s')"

text \<open>
  One iteration of the \<^verbatim>\<open>while\<close> loop, lines 150 to 174: \<open>proofNode\<close> is the top of
  the stack and \<open>s\<close> the state once it is popped (the assertion of line 151 reads the
  graph only).
\<close>

definition loopBody ::
  "(expr \<Rightarrow> string) \<Rightarrow> expr \<Rightarrow> loop_state \<Rightarrow> error + loop_state" where
  "loopBody to_string proofNode s =
     ebind (smtAssert (nodes (graph s) (id_of proofNode) \<noteq> None) 151) (\<lambda>_.
       if is_hyper_resolve proofNode then
         ebind (smtAssert (num_args proofNode > 0) 156) (\<lambda>_.
           forLoop to_string proofNode 1 s)
       else Inr s)"

text \<open>
  The measure of the \<^verbatim>\<open>while\<close> loop: the stack shrinks by the popped node and grows
  by some of its arguments only.
\<close>

fun weight :: "expr \<Rightarrow> nat" where
  "weight (App i d as) = Suc (sum_list (map weight as))"
| "weight (Var i) = 1"
| "weight (Quantifier i xs b) = 1"

definition stack_weight :: "loop_state \<Rightarrow> nat" where
  "stack_weight s = sum_list (map weight (proofStack s))"

lemma forLoop_visitChildren:
  "is_app p \<Longrightarrow>
   forLoop ts p i s = visitChildren ts p (map (\<lambda>j. args_of p ! j) [i..<num_args p - 1]) s"
proof (induction ts p i s rule: forLoop.induct)
  case (1 ts p i s)
  show ?case
  proof (cases "i < num_args p - 1")
    case True
    then have a: "arg p i = Inr (args_of p ! i)"
      using "1.prems" by (simp add: arg_def)
    have u: "[i..<num_args p - 1] = i # [i + 1..<num_args p - 1]"
      using True by (simp add: upt_conv_Cons)
    have "forLoop ts p i s =
        (case visitChild ts p (args_of p ! i) s of
           Inl e \<Rightarrow> Inl e | Inr s' \<Rightarrow> forLoop ts p (i + 1) s')"
      using True a by (subst forLoop.simps) simp
    also have "\<dots> =
        (case visitChild ts p (args_of p ! i) s of
           Inl e \<Rightarrow> Inl e
         | Inr s' \<Rightarrow> visitChildren ts p (map (\<lambda>j. args_of p ! j) [i + 1..<num_args p - 1]) s')"
      using "1.IH" [OF True a _ "1.prems"] by (auto split: sum.splits)
    also have "\<dots> = visitChildren ts p (map (\<lambda>j. args_of p ! j) [i..<num_args p - 1]) s"
      by (simp only: u list.map visitChildren.simps)
    finally show ?thesis .
  next
    case False
    then show ?thesis by (subst forLoop.simps) simp
  qed
qed

lemma premises_butlast_tl: "premises_of p = butlast (tl (args_of p))"
  by (auto simp: premises_of_def num_args_def list_eq_iff_nth_eq nth_butlast nth_tl)

lemma visitChild_weight:
  "visitChild ts p c s = Inr s' \<Longrightarrow> stack_weight s' \<le> stack_weight s + weight c"
  by (auto simp: visitChild_def ebind_def stack_weight_def Let_def push_edge_def
      split: if_splits sum.splits)

lemma visitChildren_weight:
  "visitChildren ts p cs s = Inr s' \<Longrightarrow>
   stack_weight s' \<le> stack_weight s + sum_list (map weight cs)"
proof (induction cs arbitrary: s)
  case Nil
  then show ?case by simp
next
  case (Cons c cs)
  then show ?case
    by (fastforce split: sum.splits dest: visitChild_weight)
qed

lemma sum_list_butlast_tl:
  "sum_list (map f (butlast (tl xs))) \<le> sum_list (map (f::'a \<Rightarrow> nat) xs)"
proof -
  have "sum_list (map f (butlast ys)) \<le> sum_list (map f ys)" for ys
    by (induction ys) auto
  moreover have "sum_list (map f (tl xs)) \<le> sum_list (map f xs)"
    by (cases xs) auto
  ultimately show ?thesis
    using le_trans by blast
qed

lemma weight_premises: "is_app p \<Longrightarrow> sum_list (map weight (premises_of p)) < weight p"
  by (cases p) (simp_all add: premises_butlast_tl sum_list_butlast_tl less_Suc_eq_le)

lemma loopBody_visitChildren:
  "loopBody ts p s = Inr s' \<Longrightarrow> is_hyper_resolve p \<Longrightarrow>
   visitChildren ts p (premises_of p) s = Inr s'"
  by (auto simp: loopBody_def ebind_def smtAssert_def is_hyper_resolve_def premises_of_def
      forLoop_visitChildren split: if_splits)

lemma loopBody_weight:
  assumes "loopBody ts p s = Inr s'"
  shows "stack_weight s' < stack_weight s + weight p"
proof (cases "is_hyper_resolve p")
  case True
  then have "is_app p"
    by (simp add: is_hyper_resolve_def)
  with visitChildren_weight [OF loopBody_visitChildren [OF assms True]] weight_premises [of p]
  show ?thesis by simp
next
  case False
  with assms have "s' = s"
    by (auto simp: loopBody_def ebind_def smtAssert_def split: if_splits)
  moreover have "0 < weight p"
    by (cases p) simp_all
  ultimately show ?thesis by simp
qed

text \<open>The \<^verbatim>\<open>while\<close> loop, lines 148 to 175, and the graph it returns.\<close>

function cexLoop :: "(expr \<Rightarrow> string) \<Rightarrow> loop_state \<Rightarrow> error + CexGraph" where
  "cexLoop to_string s =
     (case proofStack s of
        [] \<Rightarrow> Inr (graph s)
      | proofNode # rest \<Rightarrow>
          (case loopBody to_string proofNode (s\<lparr>proofStack := rest\<rparr>) of
             Inl e \<Rightarrow> Inl e
           | Inr s' \<Rightarrow> cexLoop to_string s'))"
  by pat_completeness auto
termination
proof (relation "measure (\<lambda>(t, s). stack_weight s)")
  show "wf (measure (\<lambda>(t, s). stack_weight s))"
    by simp
next
  fix to_string s proofNode rest s'
  assume "proofStack s = proofNode # rest"
    and "loopBody to_string proofNode (s\<lparr>proofStack := rest\<rparr>) = Inr s'"
  then show "((to_string, s'), (to_string, s)) \<in> measure (\<lambda>(t, s). stack_weight s)"
    using loopBody_weight [of to_string proofNode "s\<lparr>proofStack := rest\<rparr>" s']
    by (simp add: stack_weight_def)
qed

declare cexLoop.simps [simp del]

text \<open>
  The nodes the loop pops, in the order it pops them: the trace of the run that starts
  in \<open>s\<close>. A node that is pushed is popped by a later iteration, so a node pushed
  twice would stand twice in this list.
\<close>

function expanded :: "(expr \<Rightarrow> string) \<Rightarrow> loop_state \<Rightarrow> expr list" where
  "expanded to_string s =
     (case proofStack s of
        [] \<Rightarrow> []
      | proofNode # rest \<Rightarrow>
          proofNode #
          (case loopBody to_string proofNode (s\<lparr>proofStack := rest\<rparr>) of
             Inl e \<Rightarrow> []
           | Inr s' \<Rightarrow> expanded to_string s'))"
  by pat_completeness auto
termination
proof (relation "measure (\<lambda>(t, s). stack_weight s)")
  show "wf (measure (\<lambda>(t, s). stack_weight s))"
    by simp
next
  fix to_string s proofNode rest s'
  assume "proofStack s = proofNode # rest"
    and "loopBody to_string proofNode (s\<lparr>proofStack := rest\<rparr>) = Inr s'"
  then show "((to_string, s'), (to_string, s)) \<in> measure (\<lambda>(t, s). stack_weight s)"
    using loopBody_weight [of to_string proofNode "s\<lparr>proofStack := rest\<rparr>" s']
    by (simp add: stack_weight_def)
qed

declare expanded.simps [simp del]

text \<open>The entry checks, lines 136 and 137.\<close>

definition entryChecks :: "expr \<Rightarrow> error + unit" where
  "entryChecks prf =
     ebind (smtAssert (is_app prf) 136) (\<lambda>_.
       ebind (fact_of prf) (\<lambda>f. ebind (decl f) (\<lambda>d.
         smtAssert (decl_kind d = Z3_OP_FALSE) 137)))"

text \<open>The test of line 137 on the fact: an application whose declaration is \<open>false\<close>.\<close>

definition is_false :: "expr \<Rightarrow> bool" where
  "is_false f = (case decl f of Inl x \<Rightarrow> False | Inr d \<Rightarrow> decl_kind d = Z3_OP_FALSE)"

text \<open>Lines 139 to 146: the state in which the \<^verbatim>\<open>while\<close> loop starts.\<close>

definition seed :: "(expr \<Rightarrow> string) \<Rightarrow> expr \<Rightarrow> error + loop_state" where
  "seed to_string prf =
     ebind (arg prf 0) (\<lambda>root.
       ebind (cexNode to_string root) (\<lambda>entry.
         Inr \<lparr>proofStack = [root], visited = {id_of root},
              graph = \<lparr>nodes = [id_of root \<mapsto> entry], edges = Map.empty\<rparr>\<rparr>))"

definition cexGraph :: "(expr \<Rightarrow> string) \<Rightarrow> expr \<Rightarrow> error + CexGraph" where
  "cexGraph to_string prf =
     ebind (entryChecks prf) (\<lambda>_. ebind (seed to_string prf) (cexLoop to_string))"

text \<open>The nodes popped during \<open>cexGraph to_string prf\<close>.\<close>

definition expansion :: "(expr \<Rightarrow> string) \<Rightarrow> expr \<Rightarrow> expr list" where
  "expansion to_string prf =
     (case ebind (entryChecks prf) (\<lambda>_. seed to_string prf) of
        Inl e \<Rightarrow> []
      | Inr s \<Rightarrow> expanded to_string s)"

text \<open>All ids that occur in a term.\<close>

fun node_ids :: "expr \<Rightarrow> nat set" where
  "node_ids (App i d as) = insert i (\<Union> (node_ids ` set as))"
| "node_ids (Var i) = {i}"
| "node_ids (Quantifier i xs b) = insert i (\<Union> (node_ids ` set xs) \<union> node_ids b)"

section \<open>query (lines 83 to 120)\<close>

datatype check_result = unsat | sat | unknown

text \<open>
  Modelled from the spec: the enumeration \<^verbatim>\<open>CheckResult\<close> (declared in a header that
  is not part of the sources at hand), with the four results of the spec's data model.
\<close>

datatype CheckResult = SATISFIABLE | UNSATISFIABLE | UNKNOWN | ERROR

text \<open>
  The engine behind \<^verbatim>\<open>query\<close>: the translation of the formula layer, the solver's
  \<^verbatim>\<open>query\<close> and \<^verbatim>\<open>get_answer\<close> (the proof it holds after that query), the
  quantifier constructor \<^verbatim>\<open>z3::forall\<close> and the rendering of terms. A call the file
  guards with \<^verbatim>\<open>try\<close> either returns or throws.
\<close>

record 'e engine =
  toZ3Expr :: "'e \<Rightarrow> error + expr"
  solver_query :: "expr \<Rightarrow> error + check_result"
  get_answer :: "expr \<Rightarrow> error + expr"
  forall :: "expr list \<Rightarrow> expr \<Rightarrow> expr"
  to_string :: "expr \<Rightarrow> string"

text \<open>
  \<^verbatim>\<open>catch (z3::exception const&)\<close>: the engine's exception becomes the result
  \<^verbatim>\<open>ERROR\<close> with the empty graph; an \<^verbatim>\<open>SMTLogicError\<close> is not caught.
\<close>

definition catch_z3 ::
  "error + CheckResult \<times> CexGraph \<Rightarrow> error + CheckResult \<times> CexGraph" where
  "catch_z3 m =
     (case m of
        Inl (Z3Exception c) \<Rightarrow> Inr (ERROR, empty_graph)
      | Inl (SMTLogicError l) \<Rightarrow> Inl (SMTLogicError l)
      | Inr r \<Rightarrow> Inr r)"

definition query :: "'e engine \<Rightarrow> 'e \<Rightarrow> error + CheckResult \<times> CexGraph" where
  "query E e =
     catch_z3
       (ebind (toZ3Expr E e) (\<lambda>z3Expr.
          ebind (solver_query E z3Expr) (\<lambda>verdict.
            case verdict of
              sat \<Rightarrow>
                ebind (get_answer E z3Expr) (\<lambda>prf.
                  ebind (cexGraph (to_string E) prf) (\<lambda>cex. Inr (SATISFIABLE, cex)))
            | unsat \<Rightarrow> Inr (UNSATISFIABLE, empty_graph)
            | unknown \<Rightarrow> Inr (UNKNOWN, empty_graph))))"

section \<open>addRule (lines 68 to 81)\<close>

text \<open>
  \<^verbatim>\<open>str_symbol\<close> takes a C string: \<^verbatim>\<open>_name.c_str()\<close> ends at the first NUL
  character of the name, and is the name itself when it has none.
\<close>

definition c_str :: "string \<Rightarrow> string" where
  "c_str s = takeWhile (\<lambda>c. c \<noteq> CHR 0x00) s"

datatype symbol = str_symbol string

text \<open>
  The solver's rule base is the list of the rules added so far, each with its symbol.
  \<open>constants\<close> is the registry \<^verbatim>\<open>m_z3Interface->constants()\<close>, a map from names to
  variables, as the list of its entries in the order the loop of line 76 meets them.
\<close>

definition addRule ::
  "'e engine \<Rightarrow> (string \<times> expr) list \<Rightarrow> (expr \<times> symbol) list \<Rightarrow> 'e \<Rightarrow> string \<Rightarrow>
   error + (expr \<times> symbol) list" where
  "addRule E constants solver e ruleName =
     ebind (toZ3Expr E e) (\<lambda>rule.
       if constants = [] then Inr (solver @ [(rule, str_symbol (c_str ruleName))])
       else
         (let variables = map snd constants;
              boundRule = forall E variables rule
          in Inr (solver @ [(boundRule, str_symbol (c_str ruleName))])))"

section \<open>The invariant of the loop\<close>

text \<open>
  What holds of the state whenever the \<^verbatim>\<open>while\<close> loop tests its condition: the
  visited ids are the keys of the node map; the keys and the entries of the edge map
  are visited ids; the stack holds visited nodes with pairwise different ids, none of
  which has an edge yet. \<open>wf_mid p\<close> is the same inside the \<^verbatim>\<open>for\<close> loop that expands
  the popped node \<open>p\<close>.
\<close>

definition wf_state :: "loop_state \<Rightarrow> bool" where
  "wf_state s \<longleftrightarrow>
     finite (visited s) \<and>
     dom (nodes (graph s)) = visited s \<and>
     dom (edges (graph s)) \<subseteq> visited s \<and>
     (\<forall>k. set (edges_at (graph s) k) \<subseteq> visited s) \<and>
     id_of ` set (proofStack s) \<subseteq> visited s \<and>
     distinct (map id_of (proofStack s)) \<and>
     (\<forall>e \<in> set (proofStack s). edges_at (graph s) (id_of e) = [])"

definition wf_mid :: "expr \<Rightarrow> loop_state \<Rightarrow> bool" where
  "wf_mid p s \<longleftrightarrow>
     wf_state s \<and> id_of p \<in> visited s \<and> id_of p \<notin> id_of ` set (proofStack s)"

section \<open>A sample refutation\<close>

text \<open>
  A refutation in the shape the engine gives: the root \<open>mp\<close> node concludes
  \<open>false\<close>, its first argument is the query's hyper-resolution node \<open>nQ\<close>, whose
  premises \<open>nA\<close> and \<open>nB\<close> share the premise \<open>nP\<close>. A renderer to run the model
  on such terms prints the symbol of an application.
\<close>

fun render :: "expr \<Rightarrow> string" where
  "render (App i d as) = decl_name d"
| "render (Var i) = ''(:var)''"
| "render (Quantifier i xs b) = ''(forall)''"

definition hyper_res :: func_decl where
  "hyper_res = Func_decl Z3_OP_PR_HYPER_RESOLVE ''hyper-res''"

definition c_false :: expr where
  "c_false = App 0 (Func_decl Z3_OP_FALSE ''false'') []"

definition asserted :: expr where
  "asserted = App 1 (Func_decl Z3_OP_OTHER ''asserted'') [Quantifier 2 [] (Var 3)]"

definition zero :: expr where
  "zero = App 4 (Func_decl Z3_OP_OTHER ''0'') []"

definition fP :: expr where
  "fP = App 10 (Func_decl Z3_OP_UNINTERPRETED ''P'') [zero]"

definition fA :: expr where
  "fA = App 11 (Func_decl Z3_OP_UNINTERPRETED ''A'') [zero]"

definition fB :: expr where
  "fB = App 12 (Func_decl Z3_OP_UNINTERPRETED ''B'') [zero]"

definition fQ :: expr where
  "fQ = App 13 (Func_decl Z3_OP_UNINTERPRETED ''Q'') []"

definition nP :: expr where
  "nP = App 20 hyper_res [asserted, fP]"

definition nA :: expr where
  "nA = App 21 hyper_res [asserted, nP, fA]"

definition nB :: expr where
  "nB = App 22 hyper_res [asserted, nP, fB]"

definition nQ :: expr where
  "nQ = App 23 hyper_res [asserted, nA, nB, fQ]"

definition refutation :: expr where
  "refutation = App 30 (Func_decl Z3_OP_OTHER ''mp'') [nQ, asserted, c_false]"

text \<open>A proof term that is no refutation: what it concludes is a quantified formula.\<close>

definition not_a_refutation :: expr where
  "not_a_refutation = App 1 (Func_decl Z3_OP_OTHER ''asserted'') [Quantifier 2 [] (Var 3)]"

text \<open>
  An engine for the sample: goal 0 fails in translation, goals 1 and 2 are unreachable and
  undecided, goal 3 fails in the solver, goal 4 is reachable but the answer cannot be
  fetched, goal 5 is answered by the bare constant \<open>false\<close>, and every other goal by the
  sample refutation.
\<close>

definition sample_engine :: "nat engine" where
  "sample_engine =
     \<lparr>toZ3Expr = (\<lambda>n. if n = 0 then Inl (Z3Exception Z3_INVALID_ARG) else Inr (Var n)),
      solver_query = (\<lambda>z. if id_of z = 1 then Inr unsat
                           else if id_of z = 2 then Inr unknown
                           else if id_of z = 3 then Inl (Z3Exception Z3_INVALID_ARG)
                           else Inr sat),
      get_answer = (\<lambda>z. if id_of z = 4 then Inl (Z3Exception Z3_INVALID_ARG)
                         else if id_of z = 5 then Inr c_false
                         else Inr refutation),
      forall = (\<lambda>xs b. Quantifier 100 xs b),
      to_string = render\<rparr>"

text \<open>
  The same engine, except that it answers every reachable goal with the proof term that
  is no refutation.
\<close>

definition stray_engine :: "nat engine" where
  "stray_engine = sample_engine\<lparr>get_answer := (\<lambda>z. Inr not_a_refutation)\<rparr>"

text \<open>The graph of the sample refutation.\<close>

definition sample_graph :: CexGraph where
  "sample_graph =
     \<lparr>nodes = [23 \<mapsto> (''Q'', []), 21 \<mapsto> (''A'', [''0'']), 22 \<mapsto> (''B'', [''0'']),
               20 \<mapsto> (''P'', [''0''])],
      edges = [23 \<mapsto> [21, 22], 20 \<mapsto> [], 22 \<mapsto> [20], 21 \<mapsto> [20]]\<rparr>"

text \<open>
  The same refutation with a nonlinear step that uses one premise twice: \<open>nA2\<close> lists
  \<open>nP\<close> at both of its premise positions.
\<close>

definition nA2 :: expr where
  "nA2 = App 21 hyper_res [asserted, nP, nP, fA]"

definition nQ2 :: expr where
  "nQ2 = App 23 hyper_res [asserted, nA2, nB, fQ]"

definition refutation2 :: expr where
  "refutation2 = App 30 (Func_decl Z3_OP_OTHER ''mp'') [nQ2, asserted, c_false]"

definition sample_graph2 :: CexGraph where
  "sample_graph2 =
     \<lparr>nodes = [23 \<mapsto> (''Q'', []), 21 \<mapsto> (''A'', [''0'']), 22 \<mapsto> (''B'', [''0'']),
               20 \<mapsto> (''P'', [''0''])],
      edges = [23 \<mapsto> [21, 22], 20 \<mapsto> [], 22 \<mapsto> [20], 21 \<mapsto> [20, 20]]\<rparr>"

lemmas sample_defs =
  refutation_def nQ_def nA_def nB_def nP_def fQ_def fA_def fB_def fP_def zero_def
  asserted_def c_false_def hyper_res_def

section \<open>Basic facts\<close>

lemma c_str_id: "CHR 0x00 \<notin> set s \<Longrightarrow> c_str s = s"
  by (auto simp: c_str_def)

lemma arguments_from_app:
  "is_app p \<Longrightarrow> arguments_from ts p i acc = Inr (acc @ map ts (drop i (args_of p)))"
proof (induction ts p i acc rule: arguments_from.induct)
  case (1 ts p i acc)
  show ?case
  proof (cases "i < num_args p")
    case True
    then have a: "arg p i = Inr (args_of p ! i)"
      using "1.prems" by (simp add: arg_def)
    have d: "drop i (args_of p) = args_of p ! i # drop (i + 1) (args_of p)"
      using True by (simp add: num_args_def Cons_nth_drop_Suc)
    show ?thesis
      using True a "1.IH" [OF True a "1.prems"]
      by (subst arguments_from.simps) (simp add: d)
  next
    case False
    then show ?thesis
      by (subst arguments_from.simps) (simp add: num_args_def)
  qed
qed

lemma arguments_app: "is_app p \<Longrightarrow> arguments ts p = Inr (map ts (args_of p))"
  by (simp add: arguments_def ebind_def smtAssert_def arguments_from_app)

lemma fact_of_app:
  "is_app node \<Longrightarrow>
   fact_of node = Inr (if num_args node = 0 then node else args_of node ! (num_args node - 1))"
  by (simp add: fact_of_def ebind_def smtAssert_def arg_def)

lemma fact_of_not_z3: "fact_of e \<noteq> Inl (Z3Exception c)"
  by (cases "is_app e") (simp_all add: fact_of_app, simp add: fact_of_def ebind_def smtAssert_def)

lemma name_not_z3: "name f \<noteq> Inl (Z3Exception c)"
  by (cases f) (simp_all add: name_def ebind_def smtAssert_def)

lemma arguments_not_z3: "arguments ts f \<noteq> Inl (Z3Exception c)"
  by (cases "is_app f") (simp_all add: arguments_app, simp add: arguments_def ebind_def smtAssert_def)

lemma cexNode_not_z3: "cexNode ts e \<noteq> Inl (Z3Exception c)"
  using fact_of_not_z3 [of e c] name_not_z3 arguments_not_z3
  by (auto simp: cexNode_def ebind_def split: sum.splits)

lemma visitChild_not_z3: "visitChild ts p ch s \<noteq> Inl (Z3Exception c)"
  using cexNode_not_z3 [of ts ch c]
  by (auto simp: visitChild_def ebind_def Let_def split: sum.splits if_splits)

lemma visitChildren_not_z3: "visitChildren ts p cs s \<noteq> Inl (Z3Exception c)"
  by (induction cs arbitrary: s) (auto split: sum.splits simp: visitChild_not_z3)

lemma loopBody_not_z3: "loopBody ts p s \<noteq> Inl (Z3Exception c)"
  by (auto simp: loopBody_def ebind_def smtAssert_def is_hyper_resolve_def
      forLoop_visitChildren visitChildren_not_z3 split: sum.splits if_splits)

lemma cexLoop_not_z3: "cexLoop ts s \<noteq> Inl (Z3Exception c)"
proof (induction ts s rule: cexLoop.induct)
  case (1 ts s)
  then show ?case
    by (subst cexLoop.simps) (auto split: list.splits sum.splits simp: loopBody_not_z3)
qed

section \<open>One premise, one node, the whole loop\<close>

lemma visitChild_effect:
  assumes "visitChild ts p c s = Inr s'"
  shows "visited s' = insert (id_of c) (visited s)"
    and "proofStack s' = (if id_of c \<in> visited s then proofStack s else c # proofStack s)"
    and "dom (nodes (graph s')) = insert (id_of c) (dom (nodes (graph s)))"
    and "edges (graph s') =
           (let E = (if nodes (graph s) (id_of c) = None
                     then (edges (graph s))(id_of c \<mapsto> []) else edges (graph s))
            in E(id_of p \<mapsto> (case E (id_of p) of None \<Rightarrow> [] | Some cs \<Rightarrow> cs) @ [id_of c]))"
  using assms
  by (auto simp: visitChild_def ebind_def Let_def push_edge_def edges_at_def
      split: if_splits sum.splits)

lemma visitChild_edges_at:
  assumes "visitChild ts p c s = Inr s'" and "dom (edges (graph s)) \<subseteq> dom (nodes (graph s))"
    and "id_of p \<in> dom (nodes (graph s))"
  shows "edges_at (graph s') k =
           (if k = id_of p then edges_at (graph s) k @ [id_of c] else edges_at (graph s) k)"
  using assms(2,3) unfolding visitChild_effect(4) [OF assms(1)] edges_at_def Let_def
  by (auto split: option.splits)

lemma visitChild_wf_mid:
  assumes "visitChild ts p c s = Inr s'" and "wf_mid p s"
  shows "wf_mid p s'"
proof -
  note e = visitChild_effect [OF assms(1)]
  have w: "wf_state s" "id_of p \<in> visited s" "id_of p \<notin> id_of ` set (proofStack s)"
    using assms(2) by (simp_all add: wf_mid_def)
  have d: "dom (edges (graph s)) \<subseteq> dom (nodes (graph s))" "id_of p \<in> dom (nodes (graph s))"
    using w by (simp_all add: wf_state_def)
  have ea: "edges_at (graph s') k =
      (if k = id_of p then edges_at (graph s) k @ [id_of c] else edges_at (graph s) k)" for k
    by (rule visitChild_edges_at [OF assms(1) d])
  have 1: "finite (visited s')" "dom (nodes (graph s')) = visited s'"
    using w(1) by (simp_all add: e wf_state_def)
  have 2: "dom (edges (graph s')) \<subseteq> visited s'"
    using w(1,2) by (auto simp: e wf_state_def Let_def split: if_splits)
  have 3: "\<forall>k. set (edges_at (graph s') k) \<subseteq> visited s'"
  proof
    fix k
    have "set (edges_at (graph s) k) \<subseteq> visited s"
      using w(1) by (simp add: wf_state_def)
    then show "set (edges_at (graph s') k) \<subseteq> visited s'"
      by (auto simp: ea e(1))
  qed
  have 4: "id_of ` set (proofStack s') \<subseteq> visited s'" "distinct (map id_of (proofStack s'))"
    using w(1) by (auto simp: e wf_state_def)
  have 5: "\<forall>x \<in> set (proofStack s'). edges_at (graph s') (id_of x) = []"
  proof
    fix x assume x: "x \<in> set (proofStack s')"
    show "edges_at (graph s') (id_of x) = []"
    proof (cases "x \<in> set (proofStack s)")
      case True
      then have "id_of x \<noteq> id_of p"
        using w(3) by (metis imageI)
      moreover have "edges_at (graph s) (id_of x) = []"
        using True w(1) by (simp add: wf_state_def)
      ultimately show ?thesis
        by (simp add: ea)
    next
      case False
      with x have "x = c" "id_of c \<notin> visited s"
        by (auto simp: e split: if_splits)
      then have "id_of x \<noteq> id_of p" "edges (graph s) (id_of x) = None"
        using w by (auto simp: wf_state_def)
      then have "id_of x \<noteq> id_of p" "edges_at (graph s) (id_of x) = []"
        by (simp_all add: edges_at_def)
      then show ?thesis
        by (simp add: ea)
    qed
  qed
  have 6: "id_of p \<in> visited s'" "id_of p \<notin> id_of ` set (proofStack s')"
    using w by (auto simp: e)
  show ?thesis
    unfolding wf_mid_def wf_state_def using 1 2 3 4 5 6 by blast
qed

lemma visitChildren_wf_mid:
  "visitChildren ts p cs s = Inr s' \<Longrightarrow> wf_mid p s \<Longrightarrow> wf_mid p s'"
proof (induction cs arbitrary: s)
  case Nil
  then show ?case by simp
next
  case (Cons c cs)
  then show ?case
    by (auto split: sum.splits dest: visitChild_wf_mid)
qed

lemma wf_mid_dom:
  "wf_mid p s \<Longrightarrow>
   dom (edges (graph s)) \<subseteq> dom (nodes (graph s)) \<and> id_of p \<in> dom (nodes (graph s))"
  by (simp add: wf_mid_def wf_state_def)

lemma visitChildren_edges_at:
  "visitChildren ts p cs s = Inr s' \<Longrightarrow> wf_mid p s \<Longrightarrow>
   edges_at (graph s') k =
     (if k = id_of p then edges_at (graph s) k @ map id_of cs else edges_at (graph s) k)"
proof (induction cs arbitrary: s)
  case Nil
  then show ?case by simp
next
  case (Cons c cs)
  from Cons.prems(1) obtain s1 where
    s1: "visitChild ts p c s = Inr s1" and r: "visitChildren ts p cs s1 = Inr s'"
    by (auto split: sum.splits)
  have m: "wf_mid p s1"
    by (rule visitChild_wf_mid [OF s1 Cons.prems(2)])
  have "edges_at (graph s1) k =
      (if k = id_of p then edges_at (graph s) k @ [id_of c] else edges_at (graph s) k)"
    using visitChild_edges_at [OF s1] wf_mid_dom [OF Cons.prems(2)] by blast
  with Cons.IH [OF r m] show ?case
    by (cases "k = id_of p") simp_all
qed

lemma visitChildren_stack:
  "visitChildren ts p cs s = Inr s' \<Longrightarrow>
   \<exists>new. proofStack s' = new @ proofStack s \<and> set new \<subseteq> set cs \<and>
         visited s' = visited s \<union> id_of ` set new \<and> id_of ` set new \<inter> visited s = {}"
proof (induction cs arbitrary: s)
  case Nil
  then show ?case by simp
next
  case (Cons c cs)
  from Cons.prems obtain s1 where
    s1: "visitChild ts p c s = Inr s1" and r: "visitChildren ts p cs s1 = Inr s'"
    by (auto split: sum.splits)
  note e = visitChild_effect(1,2) [OF s1]
  from Cons.IH [OF r] obtain new where
    n: "proofStack s' = new @ proofStack s1" "set new \<subseteq> set cs"
      "visited s' = visited s1 \<union> id_of ` set new" "id_of ` set new \<inter> visited s1 = {}"
    by blast
  let ?new = "new @ (if id_of c \<in> visited s then [] else [c])"
  have "proofStack s' = ?new @ proofStack s"
    using n(1) by (simp add: e)
  moreover have "set ?new \<subseteq> set (c # cs)"
    using n(2) by auto
  moreover have "visited s' = visited s \<union> id_of ` set ?new"
    using n(3) by (auto simp: e)
  moreover have "id_of ` set ?new \<inter> visited s = {}"
    using n(4) by (auto simp: e)
  ultimately show ?case
    by blast
qed

lemma loopBody_not_hyper:
  "loopBody ts p s = Inr s' \<Longrightarrow> \<not> is_hyper_resolve p \<Longrightarrow> s' = s"
  by (auto simp: loopBody_def ebind_def smtAssert_def split: if_splits)

lemma set_premises_of: "set (premises_of p) \<subseteq> set (args_of p)"
  unfolding premises_butlast_tl by (cases "args_of p") (auto dest: in_set_butlastD)

lemma loopBody_stack:
  assumes "loopBody ts p s = Inr s'"
  shows "\<exists>new. proofStack s' = new @ proofStack s \<and> set new \<subseteq> set (args_of p) \<and>
         visited s' = visited s \<union> id_of ` set new \<and> id_of ` set new \<inter> visited s = {}"
proof (cases "is_hyper_resolve p")
  case True
  from visitChildren_stack [OF loopBody_visitChildren [OF assms True]] obtain new where
    n: "proofStack s' = new @ proofStack s" "set new \<subseteq> set (premises_of p)"
      "visited s' = visited s \<union> id_of ` set new" "id_of ` set new \<inter> visited s = {}"
    by blast
  from n(2) set_premises_of [of p] have "set new \<subseteq> set (args_of p)"
    by (rule subset_trans)
  with n(1,3,4) show ?thesis
    by (intro exI [of _ new]) simp
next
  case False
  have "s' = s"
    by (rule loopBody_not_hyper [OF assms False])
  then show ?thesis
    by (intro exI [of _ "[]"]) simp
qed

lemma loopBody_wf_mid:
  assumes "loopBody ts p s = Inr s'" and "wf_mid p s"
  shows "wf_mid p s'"
proof (cases "is_hyper_resolve p")
  case True
  show ?thesis
    by (rule visitChildren_wf_mid [OF loopBody_visitChildren [OF assms(1) True] assms(2)])
next
  case False
  then show ?thesis
    using loopBody_not_hyper [OF assms(1)] assms(2) by simp
qed

lemma loopBody_edges_at:
  assumes "loopBody ts p s = Inr s'" and "wf_mid p s"
  shows "edges_at (graph s') k =
     (if k = id_of p \<and> is_hyper_resolve p
      then edges_at (graph s) k @ map id_of (premises_of p) else edges_at (graph s) k)"
proof (cases "is_hyper_resolve p")
  case True
  show ?thesis
    using visitChildren_edges_at [OF loopBody_visitChildren [OF assms(1) True] assms(2)] True
    by simp
next
  case False
  then show ?thesis
    using loopBody_not_hyper [OF assms(1)] by simp
qed

lemma pop_wf_mid:
  "wf_state s \<Longrightarrow> proofStack s = p # rest \<Longrightarrow> wf_mid p (s\<lparr>proofStack := rest\<rparr>)"
  by (auto simp: wf_mid_def wf_state_def)

lemma wf_mid_wf_state: "wf_mid p s \<Longrightarrow> wf_state s"
  by (simp add: wf_mid_def)

lemma cexLoop_Nil: "proofStack s = [] \<Longrightarrow> cexLoop ts s = Inr (graph s)"
  by (subst cexLoop.simps) simp

lemma cexLoop_Cons:
  "proofStack s = p # rest \<Longrightarrow>
   cexLoop ts s =
     (case loopBody ts p (s\<lparr>proofStack := rest\<rparr>) of
        Inl e \<Rightarrow> Inl e | Inr s' \<Rightarrow> cexLoop ts s')"
  by (subst cexLoop.simps) simp

lemma expanded_Nil: "proofStack s = [] \<Longrightarrow> expanded ts s = []"
  by (subst expanded.simps) simp

lemma expanded_Cons:
  "proofStack s = p # rest \<Longrightarrow>
   expanded ts s =
     p # (case loopBody ts p (s\<lparr>proofStack := rest\<rparr>) of
            Inl e \<Rightarrow> [] | Inr s' \<Rightarrow> expanded ts s')"
  by (subst expanded.simps) simp

lemma expanded_ids:
  "wf_state s \<Longrightarrow>
   distinct (map id_of (expanded ts s)) \<and>
   id_of ` set (expanded ts s) \<subseteq> id_of ` set (proofStack s) \<union> - visited s"
proof (induction ts s rule: expanded.induct)
  case (1 ts s)
  show ?case
  proof (cases "proofStack s")
    case Nil
    then show ?thesis
      by (simp add: expanded_Nil)
  next
    case (Cons p rest)
    let ?s0 = "s\<lparr>proofStack := rest\<rparr>"
    have m: "wf_mid p ?s0"
      by (rule pop_wf_mid [OF "1.prems" Cons])
    show ?thesis
    proof (cases "loopBody ts p ?s0")
      case (Inl e)
      then show ?thesis
        using Cons by (simp add: expanded_Cons)
    next
      case (Inr s')
      have w': "wf_state s'"
        by (rule wf_mid_wf_state [OF loopBody_wf_mid [OF Inr m]])
      from loopBody_stack [OF Inr] obtain new where
        n: "proofStack s' = new @ rest" "visited s' = visited s \<union> id_of ` set new"
          "id_of ` set new \<inter> visited s = {}"
        by auto
      from "1.IH" [OF Cons Inr w'] have
        ih: "distinct (map id_of (expanded ts s'))" and
        sub: "id_of ` set (expanded ts s') \<subseteq> id_of ` set (proofStack s') \<union> - visited s'"
        by simp_all
      have pv: "id_of p \<in> visited s" "id_of p \<notin> id_of ` set rest"
        using m by (simp_all add: wf_mid_def)
      define E where "E = id_of ` set (expanded ts s')"
      define N where "N = id_of ` set new"
      define R where "R = id_of ` set rest"
      have "E \<subseteq> (N \<union> R) \<union> - (visited s \<union> N)" "N \<inter> visited s = {}"
        "id_of p \<in> visited s" "id_of p \<notin> R"
        using sub n pv by (simp_all add: E_def N_def R_def image_Un)
      then have "id_of p \<notin> E" "E \<subseteq> R \<union> - visited s"
        by blast+
      then have notin: "id_of p \<notin> id_of ` set (expanded ts s')"
        and sub': "id_of ` set (expanded ts s') \<subseteq> id_of ` set rest \<union> - visited s"
        by (simp_all add: E_def R_def)
      have e: "expanded ts s = p # expanded ts s'"
        using Cons Inr by (simp add: expanded_Cons)
      have "distinct (map id_of (expanded ts s))"
        using ih notin by (simp add: e)
      moreover have "id_of ` set (expanded ts s) \<subseteq> id_of ` set (proofStack s) \<union> - visited s"
        using sub' by (auto simp: e Cons)
      ultimately show ?thesis
        by simp
    qed
  qed
qed

lemma id_in_node_ids: "id_of e \<in> node_ids e"
  by (cases e) simp_all

lemma node_ids_arg: "c \<in> set (args_of p) \<Longrightarrow> node_ids c \<subseteq> node_ids p"
  by (cases p) auto

lemma finite_node_ids: "finite (node_ids e)"
  by (induction e) auto

lemma expanded_node_ids:
  "id_of ` set (expanded ts s) \<subseteq> \<Union> (node_ids ` set (proofStack s))"
proof (induction ts s rule: expanded.induct)
  case (1 ts s)
  show ?case
  proof (cases "proofStack s")
    case Nil
    then show ?thesis
      by (simp add: expanded_Nil)
  next
    case (Cons p rest)
    let ?s0 = "s\<lparr>proofStack := rest\<rparr>"
    show ?thesis
    proof (cases "loopBody ts p ?s0")
      case (Inl e)
      then show ?thesis
        using Cons id_in_node_ids [of p] by (simp add: expanded_Cons)
    next
      case (Inr s')
      from loopBody_stack [OF Inr] obtain new where
        n: "proofStack s' = new @ rest" "set new \<subseteq> set (args_of p)"
        by auto
      have "\<Union> (node_ids ` set new) \<subseteq> node_ids p"
        using n(2) node_ids_arg by blast
      then have "\<Union> (node_ids ` set (proofStack s')) \<subseteq> \<Union> (node_ids ` set (proofStack s))"
        by (auto simp: n(1) Cons)
      with "1.IH" [OF Cons Inr] have
        "id_of ` set (expanded ts s') \<subseteq> \<Union> (node_ids ` set (proofStack s))"
        by (rule subset_trans)
      moreover have "expanded ts s = p # expanded ts s'"
        using Cons Inr by (simp add: expanded_Cons)
      ultimately show ?thesis
        using id_in_node_ids [of p] by (auto simp: Cons)
    qed
  qed
qed

lemma cexLoop_final:
  "wf_state s \<Longrightarrow> cexLoop ts s = Inr g \<Longrightarrow>
   \<exists>sf. wf_state sf \<and> proofStack sf = [] \<and> graph sf = g"
proof (induction ts s rule: cexLoop.induct)
  case (1 ts s)
  show ?case
  proof (cases "proofStack s")
    case Nil
    then show ?thesis
      using "1.prems" by (auto simp: cexLoop_Nil)
  next
    case (Cons p rest)
    let ?s0 = "s\<lparr>proofStack := rest\<rparr>"
    from "1.prems"(2) obtain s' where
      b: "loopBody ts p ?s0 = Inr s'" and r: "cexLoop ts s' = Inr g"
      by (auto simp: cexLoop_Cons [OF Cons] split: sum.splits)
    have "wf_state s'"
      by (rule wf_mid_wf_state [OF loopBody_wf_mid [OF b pop_wf_mid [OF "1.prems"(1) Cons]]])
    then show ?thesis
      by (rule "1.IH" [OF Cons b _ r])
  qed
qed

lemma cexLoop_edges:
  "wf_state s \<Longrightarrow> cexLoop ts s = Inr g \<Longrightarrow>
   (\<forall>k. k \<notin> id_of ` set (expanded ts s) \<longrightarrow> edges_at g k = edges_at (graph s) k) \<and>
   (\<forall>n \<in> set (expanded ts s).
      edges_at g (id_of n) = (if is_hyper_resolve n then map id_of (premises_of n) else [])) \<and>
   dom (nodes g) = (visited s - id_of ` set (proofStack s)) \<union> id_of ` set (expanded ts s)"
proof (induction ts s rule: cexLoop.induct)
  case (1 ts s)
  show ?case
  proof (cases "proofStack s")
    case Nil
    then show ?thesis
      using "1.prems" by (auto simp: cexLoop_Nil expanded_Nil wf_state_def)
  next
    case (Cons p rest)
    let ?s0 = "s\<lparr>proofStack := rest\<rparr>"
    from "1.prems"(2) obtain s' where
      b: "loopBody ts p ?s0 = Inr s'" and r: "cexLoop ts s' = Inr g"
      by (auto simp: cexLoop_Cons [OF Cons] split: sum.splits)
    have m: "wf_mid p ?s0"
      by (rule pop_wf_mid [OF "1.prems"(1) Cons])
    have w': "wf_state s'"
      by (rule wf_mid_wf_state [OF loopBody_wf_mid [OF b m]])
    have e: "expanded ts s = p # expanded ts s'"
      using Cons b by (simp add: expanded_Cons)
    have notin: "id_of p \<notin> id_of ` set (expanded ts s')"
      using expanded_ids [OF "1.prems"(1), of ts] by (simp add: e)
    have step: "edges_at (graph s') k =
        (if k = id_of p \<and> is_hyper_resolve p
         then edges_at (graph s) k @ map id_of (premises_of p) else edges_at (graph s) k)" for k
      using loopBody_edges_at [OF b m, of k] by simp
    have p0: "edges_at (graph s) (id_of p) = []"
      using "1.prems"(1) Cons by (simp add: wf_state_def)
    from "1.IH" [OF Cons b w' r] have
      ih1: "\<And>k. k \<notin> id_of ` set (expanded ts s') \<Longrightarrow> edges_at g k = edges_at (graph s') k" and
      ih2: "\<And>n. n \<in> set (expanded ts s') \<Longrightarrow>
        edges_at g (id_of n) = (if is_hyper_resolve n then map id_of (premises_of n) else [])" and
      ih3: "dom (nodes g) =
        (visited s' - id_of ` set (proofStack s')) \<union> id_of ` set (expanded ts s')"
      by simp_all
    have 1: "edges_at g k = edges_at (graph s) k" if "k \<notin> id_of ` set (expanded ts s)" for k
    proof -
      from that have "k \<noteq> id_of p" "k \<notin> id_of ` set (expanded ts s')"
        by (simp_all add: e)
      then show ?thesis
        by (simp add: ih1 step)
    qed
    have 2: "edges_at g (id_of n) =
        (if is_hyper_resolve n then map id_of (premises_of n) else [])"
      if "n \<in> set (expanded ts s)" for n
    proof (cases "n = p")
      case True
      have "edges_at g (id_of p) = edges_at (graph s') (id_of p)"
        by (rule ih1 [OF notin])
      then show ?thesis
        by (simp add: True step p0)
    next
      case False
      with that have "n \<in> set (expanded ts s')"
        by (simp add: e)
      then show ?thesis
        by (rule ih2)
    qed
    from loopBody_stack [OF b] obtain new where
      n: "proofStack s' = new @ rest" "visited s' = visited s \<union> id_of ` set new"
        "id_of ` set new \<inter> visited s = {}"
      by auto
    have pv: "id_of p \<in> visited s" "id_of p \<notin> id_of ` set rest"
      using m by (simp_all add: wf_mid_def)
    define E where "E = id_of ` set (expanded ts s')"
    define N where "N = id_of ` set new"
    define R where "R = id_of ` set rest"
    have "dom (nodes g) = ((visited s \<union> N) - (N \<union> R)) \<union> E" "N \<inter> visited s = {}"
      "id_of p \<in> visited s" "id_of p \<notin> R"
      using ih3 n pv by (simp_all add: E_def N_def R_def image_Un)
    then have "dom (nodes g) = (visited s - insert (id_of p) R) \<union> insert (id_of p) E"
      by blast
    then have 3: "dom (nodes g) =
        (visited s - id_of ` set (proofStack s)) \<union> id_of ` set (expanded ts s)"
      by (simp add: E_def R_def e Cons)
    show ?thesis
      using 1 2 3 by blast
  qed
qed

lemma seed_wf:
  assumes "seed ts prf = Inr s"
  shows "wf_state s" and "proofStack s = [args_of prf ! 0]"
    and "visited s = {id_of (args_of prf ! 0)}" and "edges (graph s) = Map.empty"
    and "is_app prf" and "0 < num_args prf"
  using assms
  by (auto simp: seed_def ebind_def arg_def wf_state_def edges_at_def
      split: sum.splits if_splits)

lemma cexGraph_run:
  assumes "cexGraph ts prf = Inr g"
  obtains s where "seed ts prf = Inr s" and "cexLoop ts s = Inr g"
    and "expansion ts prf = expanded ts s"
  using assms
  by (auto simp: cexGraph_def expansion_def ebind_def split: sum.splits)

section \<open>Which errors can arise\<close>

lemma fact_of_Inl: "fact_of e = Inl x \<Longrightarrow> x = SMTLogicError 182"
  by (auto simp: fact_of_def ebind_def smtAssert_def arg_def split: if_splits)

lemma name_Inl: "name f = Inl x \<Longrightarrow> x = SMTLogicError 190"
  by (cases f) (auto simp: name_def ebind_def smtAssert_def)

lemma arguments_Inl: "arguments ts f = Inl x \<Longrightarrow> x = SMTLogicError 196"
  by (cases "is_app f") (auto simp: arguments_app, auto simp: arguments_def ebind_def smtAssert_def)

lemma cexNode_Inl:
  "cexNode ts e = Inl x \<Longrightarrow>
   x = SMTLogicError 182 \<or> x = SMTLogicError 190 \<or> x = SMTLogicError 196"
  by (auto simp: cexNode_def ebind_def split: sum.splits
      dest: fact_of_Inl name_Inl arguments_Inl)

lemma cexNode_not_151: "cexNode ts e \<noteq> Inl (SMTLogicError 151)"
  using cexNode_Inl [of ts e "SMTLogicError 151"] by auto

lemma visitChild_not_151: "visitChild ts p c s \<noteq> Inl (SMTLogicError 151)"
  using cexNode_not_151 [of ts c]
  by (auto simp: visitChild_def ebind_def Let_def split: sum.splits if_splits)

lemma visitChildren_not_151: "visitChildren ts p cs s \<noteq> Inl (SMTLogicError 151)"
  by (induction cs arbitrary: s) (auto split: sum.splits simp: visitChild_not_151)

lemma loopBody_151:
  "nodes (graph s) (id_of p) \<noteq> None \<Longrightarrow> loopBody ts p s \<noteq> Inl (SMTLogicError 151)"
  by (auto simp: loopBody_def ebind_def smtAssert_def is_hyper_resolve_def
      forLoop_visitChildren visitChildren_not_151 split: sum.splits if_splits)

lemma cexLoop_not_151: "wf_state s \<Longrightarrow> cexLoop ts s \<noteq> Inl (SMTLogicError 151)"
proof (induction ts s rule: cexLoop.induct)
  case (1 ts s)
  show ?case
  proof (cases "proofStack s")
    case Nil
    then show ?thesis
      by (simp add: cexLoop_Nil)
  next
    case (Cons p rest)
    let ?s0 = "s\<lparr>proofStack := rest\<rparr>"
    have m: "wf_mid p ?s0"
      by (rule pop_wf_mid [OF "1.prems" Cons])
    show ?thesis
    proof (cases "loopBody ts p ?s0")
      case (Inl e)
      have "nodes (graph ?s0) (id_of p) \<noteq> None"
        using wf_mid_dom [OF m] by blast
      from loopBody_151 [OF this, of ts] Inl have "e \<noteq> SMTLogicError 151"
        by auto
      then show ?thesis
        using Inl by (simp add: cexLoop_Cons [OF Cons])
    next
      case (Inr s')
      have "wf_state s'"
        by (rule wf_mid_wf_state [OF loopBody_wf_mid [OF Inr m]])
      from "1.IH" [OF Cons Inr this] show ?thesis
        using Inr by (simp add: cexLoop_Cons [OF Cons])
    qed
  qed
qed

section \<open>The sample, run\<close>

lemmas run_defs =
  cexGraph_def expansion_def entryChecks_def seed_def ebind_def smtAssert_def fact_of_def
  num_args_def arg_def cexNode_def name_def arguments_def arguments_from.simps
  cexLoop.simps expanded.simps loopBody_def is_hyper_resolve_def forLoop.simps
  visitChild_def push_edge_def edges_at_def Let_def

lemma sample_run: "cexGraph render refutation = Inr sample_graph"
  by (simp add: run_defs sample_defs sample_graph_def)

lemma sample_expansion: "expansion render refutation = [nQ, nB, nP, nA]"
  by (simp add: run_defs sample_defs)

lemmas sample2_defs = refutation2_def nQ2_def nA2_def

lemma sample_run2: "cexGraph render refutation2 = Inr sample_graph2"
  by (simp add: run_defs sample_defs sample2_defs sample_graph2_def)

lemma sample_expansion2: "expansion render refutation2 = [nQ2, nB, nP, nA2]"
  by (simp add: run_defs sample_defs sample2_defs)

section \<open>The graph that is returned\<close>

text \<open>
  What the invariant gives for a completed extraction. The keys of the node map are
  exactly the ids of the popped nodes, each popped once; the edge list of a popped node
  is the list of its premises' ids when it is a hyper-resolution node and empty
  otherwise; no other id has an edge.
\<close>

lemma cexGraph_graph:
  assumes "cexGraph ts prf = Inr g"
  shows "finite (dom (edges g))"
    and "set (edges_at g k) \<subseteq> dom (nodes g)"
    and "dom (nodes g) = id_of ` set (expansion ts prf)"
    and "n \<in> set (expansion ts prf) \<Longrightarrow>
         edges_at g (id_of n) = (if is_hyper_resolve n then map id_of (premises_of n) else [])"
    and "k \<notin> id_of ` set (expansion ts prf) \<Longrightarrow> edges_at g k = []"
    and "distinct (map id_of (expansion ts prf))"
proof -
  from assms obtain s where
    s: "seed ts prf = Inr s" "cexLoop ts s = Inr g" "expansion ts prf = expanded ts s"
    by (rule cexGraph_run)
  note w = seed_wf [OF s(1)]
  from cexLoop_final [OF w(1) s(2)] obtain sf where
    f: "wf_state sf" "graph sf = g"
    by blast
  show "finite (dom (edges g))"
    using f by (auto simp: wf_state_def intro: finite_subset)
  show "set (edges_at g k) \<subseteq> dom (nodes g)"
    using f by (auto simp: wf_state_def)
  note e = cexLoop_edges [OF w(1) s(2)]
  show "dom (nodes g) = id_of ` set (expansion ts prf)"
    using e by (simp add: w(2,3) s(3))
  show "edges_at g (id_of n) = (if is_hyper_resolve n then map id_of (premises_of n) else [])"
    if "n \<in> set (expansion ts prf)"
    using e that by (simp add: s(3))
  show "edges_at g k = []" if "k \<notin> id_of ` set (expansion ts prf)"
    using e that by (simp add: s(3) w(4) edges_at_def)
  show "distinct (map id_of (expansion ts prf))"
    using expanded_ids [OF w(1), of ts] by (simp add: s(3))
qed

lemma expansion_bound:
  "distinct (map id_of (expansion ts prf)) \<and> length (expansion ts prf) \<le> card (node_ids prf)"
proof (cases "ebind (entryChecks prf) (\<lambda>_. seed ts prf)")
  case (Inl e)
  then show ?thesis
    by (simp add: expansion_def)
next
  case (Inr s)
  then have s: "seed ts prf = Inr s"
    by (auto simp: ebind_def split: sum.splits)
  have e: "expansion ts prf = expanded ts s"
    using Inr by (simp add: expansion_def)
  note w = seed_wf [OF s]
  have d: "distinct (map id_of (expanded ts s))"
    using expanded_ids [OF w(1)] by simp
  have "args_of prf ! 0 \<in> set (args_of prf)"
    using w(6) by (simp add: num_args_def)
  then have "node_ids (args_of prf ! 0) \<subseteq> node_ids prf"
    by (rule node_ids_arg)
  with expanded_node_ids [of ts s] have "id_of ` set (expanded ts s) \<subseteq> node_ids prf"
    by (simp add: w(2))
  then have "card (id_of ` set (expanded ts s)) \<le> card (node_ids prf)"
    by (rule card_mono [OF finite_node_ids])
  moreover have "card (id_of ` set (expanded ts s)) = length (expanded ts s)"
    using distinct_card [OF d] by simp
  ultimately show ?thesis
    using d by (simp add: e)
qed

lemma filter_distinct_map:
  "distinct (map f xs) \<Longrightarrow> y \<in> f ` set xs \<Longrightarrow> length (filter (\<lambda>x. f x = y) xs) = 1"
proof (induction xs)
  case Nil
  then show ?case by simp
next
  case (Cons x xs)
  show ?case
  proof (cases "f x = y")
    case True
    then have "filter (\<lambda>x. f x = y) xs = []"
      using Cons.prems(1) by (auto simp: filter_empty_conv) (metis imageI)
    then show ?thesis
      using True by simp
  next
    case False
    then show ?thesis
      using Cons by auto
  qed
qed

section \<open>fact\<close>

text \<open>
  C8. For every application node, \<^verbatim>\<open>fact(node)\<close> returns the node itself when the node
  has no argument, and its last argument, the one at position \<open>num_args - 1\<close>, when it
  has one or more.
\<close>

theorem fact_spec:
  "is_app node \<Longrightarrow>
   fact_of node = Inr (if num_args node = 0 then node else args_of node ! (num_args node - 1))"
  by (rule fact_of_app)

theorem fact_spec_witness:
  "is_app c_false \<and> fact_of c_false = Inr c_false \<and> is_app nA \<and> fact_of nA = Inr fA"
  using fact_spec [of c_false] fact_spec [of nA]
  by (simp add: c_false_def nA_def num_args_def)

section \<open>The entry checks\<close>

text \<open>
  C4. Extraction is to pass its entry checks exactly when the root is an application
  whose fact is the constant \<open>false\<close>, and to abort with a contract violation before
  any graph node is produced otherwise. The code misses one case. For a root that is an
  application whose fact is not an application (here a quantified formula), line 137
  calls \<^verbatim>\<open>decl()\<close> on the fact without the \<^verbatim>\<open>is_app()\<close> test that \<^verbatim>\<open>name\<close> (line 190)
  and line 154 make first. The engine's accessor rejects the call before the assertion
  compares anything: extraction ends with the engine's exception, which \<^verbatim>\<open>query\<close>
  catches and reports as \<^verbatim>\<open>ERROR\<close>, where \<^verbatim>\<open>name\<close> on the same term gives the contract
  violation of line 190.
\<close>

theorem entry_checks_failing_input:
  "is_app not_a_refutation \<and>
   fact_of not_a_refutation = Inr (Quantifier 2 [] (Var 3)) \<and>
   \<not> is_app (Quantifier 2 [] (Var 3)) \<and>
   \<not> is_false (Quantifier 2 [] (Var 3)) \<and>
   entryChecks not_a_refutation = Inl (Z3Exception Z3_INVALID_ARG) \<and>
   cexGraph render not_a_refutation = Inl (Z3Exception Z3_INVALID_ARG) \<and>
   name (Quantifier 2 [] (Var 3)) = Inl (SMTLogicError 190) \<and>
   \<not> is_hyper_resolve (Quantifier 2 [] (Var 3)) \<and>
   query stray_engine 6 = Inr (ERROR, empty_graph)"
  by (simp add: not_a_refutation_def cexGraph_def entryChecks_def ebind_def smtAssert_def
      fact_of_def num_args_def arg_def is_false_def name_def is_hyper_resolve_def
      query_def catch_z3_def stray_engine_def sample_engine_def)

text \<open>
  Everywhere else the entry checks do what is asked of them. They pass exactly when the
  root is an application and its fact is the constant \<open>false\<close>; an error of the entry
  checks is the result of the extraction, so no graph is produced; the error is the
  contract violation of line 136 when the root is not an application and the contract
  violation of line 137 when the fact is an application other than \<open>false\<close>.
\<close>

lemma entry_checks_cases:
  "(entryChecks prf = Inr () \<longleftrightarrow> is_app prf \<and> (\<exists>f. fact_of prf = Inr f \<and> is_false f)) \<and>
   (\<forall>e. entryChecks prf = Inl e \<longrightarrow> cexGraph ts prf = Inl e) \<and>
   (\<not> is_app prf \<longrightarrow> entryChecks prf = Inl (SMTLogicError 136)) \<and>
   (\<forall>f. is_app prf \<and> fact_of prf = Inr f \<and> is_app f \<and> \<not> is_false f \<longrightarrow>
        entryChecks prf = Inl (SMTLogicError 137))"
proof (intro conjI allI impI)
  show "entryChecks prf = Inr () \<longleftrightarrow> is_app prf \<and> (\<exists>f. fact_of prf = Inr f \<and> is_false f)"
    by (auto simp: entryChecks_def ebind_def smtAssert_def is_false_def split: sum.splits if_splits)
next
  fix e assume "entryChecks prf = Inl e"
  then show "cexGraph ts prf = Inl e"
    by (simp add: cexGraph_def ebind_def)
next
  assume "\<not> is_app prf"
  then show "entryChecks prf = Inl (SMTLogicError 136)"
    by (simp add: entryChecks_def ebind_def smtAssert_def)
next
  fix f assume "is_app prf \<and> fact_of prf = Inr f \<and> is_app f \<and> \<not> is_false f"
  then show "entryChecks prf = Inl (SMTLogicError 137)"
    by (cases f) (auto simp: entryChecks_def ebind_def smtAssert_def is_false_def)
qed

lemma entry_checks_cases_sample:
  "entryChecks refutation = Inr () \<and> is_app refutation \<and>
   fact_of refutation = Inr c_false \<and> is_false c_false \<and>
   entryChecks (Var 7) = Inl (SMTLogicError 136) \<and>
   cexGraph render (Var 7) = Inl (SMTLogicError 136) \<and> \<not> is_app (Var 7) \<and>
   is_app nA \<and> fact_of nA = Inr fA \<and> is_app fA \<and> \<not> is_false fA \<and>
   entryChecks nA = Inl (SMTLogicError 137) \<and>
   cexGraph render nA = Inl (SMTLogicError 137)"
proof -
  have r: "is_app refutation" "fact_of refutation = Inr c_false" "is_false c_false"
    by (simp_all add: refutation_def fact_of_def ebind_def smtAssert_def num_args_def arg_def
        is_false_def c_false_def)
  have a: "is_app nA \<and> fact_of nA = Inr fA \<and> is_app fA \<and> \<not> is_false fA"
    by (simp add: nA_def fA_def fact_of_def ebind_def smtAssert_def num_args_def arg_def
        is_false_def)
  have v: "\<not> is_app (Var 7)"
    by simp
  show ?thesis
    using r a v entry_checks_cases [of refutation render] entry_checks_cases [of "Var 7" render]
      entry_checks_cases [of nA render]
    by blast
qed

section \<open>Argument accesses are in range\<close>

text \<open>
  C10. A root without arguments whose declaration is \<open>false\<close> passes the entry checks.
  After the entry checks, an argument access of the extraction is out of range (the
  engine answers \<^verbatim>\<open>Z3_IOB\<close>) exactly when the root has no argument: then the access
  \<^verbatim>\<open>_proof.arg(0)\<close> of line 140 is out of range; and when the root has an argument, no
  accessor of the engine fails anywhere in the extraction.
\<close>

theorem range_spec:
  "(is_app prf \<and> num_args prf = 0 \<and> is_false prf \<longrightarrow> entryChecks prf = Inr ()) \<and>
   (entryChecks prf = Inr () \<and> num_args prf = 0 \<longrightarrow>
      cexGraph ts prf = Inl (Z3Exception Z3_IOB)) \<and>
   (entryChecks prf = Inr () \<and> 0 < num_args prf \<longrightarrow>
      (\<forall>c. cexGraph ts prf \<noteq> Inl (Z3Exception c)))"
proof (intro conjI impI allI)
  assume "is_app prf \<and> num_args prf = 0 \<and> is_false prf"
  then show "entryChecks prf = Inr ()"
    by (auto simp: entryChecks_def ebind_def smtAssert_def fact_of_def is_false_def
        split: sum.splits)
next
  assume a: "entryChecks prf = Inr () \<and> num_args prf = 0"
  then have "is_app prf"
    by (auto simp: entryChecks_def ebind_def smtAssert_def split: if_splits)
  with a show "cexGraph ts prf = Inl (Z3Exception Z3_IOB)"
    by (simp add: cexGraph_def seed_def ebind_def arg_def)
next
  fix c
  assume a: "entryChecks prf = Inr () \<and> 0 < num_args prf"
  then have "is_app prf"
    by (auto simp: entryChecks_def ebind_def smtAssert_def split: if_splits)
  with a have "arg prf 0 = Inr (args_of prf ! 0)"
    by (simp add: arg_def)
  then show "cexGraph ts prf \<noteq> Inl (Z3Exception c)"
    using a cexNode_not_z3 [of ts "args_of prf ! 0" c] cexLoop_not_z3
    by (auto simp: cexGraph_def seed_def ebind_def split: sum.splits)
qed

theorem range_spec_witness:
  "is_app c_false \<and> num_args c_false = 0 \<and> is_false c_false \<and>
   entryChecks c_false = Inr () \<and>
   cexGraph render c_false = Inl (Z3Exception Z3_IOB) \<and>
   entryChecks refutation = Inr () \<and> 0 < num_args refutation \<and>
   (\<forall>c. cexGraph render refutation \<noteq> Inl (Z3Exception c))"
proof -
  have a: "is_app c_false \<and> num_args c_false = 0 \<and> is_false c_false"
    by (simp add: num_args_def is_false_def c_false_def)
  have c: "entryChecks refutation = Inr ()" and d: "0 < num_args refutation"
    by (simp_all add: entryChecks_def ebind_def smtAssert_def fact_of_def num_args_def arg_def
        refutation_def c_false_def)
  show ?thesis
    using a c d range_spec [of c_false render] range_spec [of refutation render] by simp
qed

section \<open>The outcomes of query\<close>

text \<open>
  C3. An unreachable goal gives \<^verbatim>\<open>UNSATISFIABLE\<close> and an undecided one \<^verbatim>\<open>UNKNOWN\<close>,
  each with the empty graph. An exception of the engine, be it raised by the
  translation, by the solver's query, by fetching the answer or inside the extraction,
  is caught and gives \<^verbatim>\<open>ERROR\<close> with the empty graph: nothing of a graph under
  construction is kept.
\<close>

theorem query_outcomes:
  "(toZ3Expr E e = Inr z \<and> solver_query E z = Inr unsat \<longrightarrow>
      query E e = Inr (UNSATISFIABLE, empty_graph)) \<and>
   (toZ3Expr E e = Inr z \<and> solver_query E z = Inr unknown \<longrightarrow>
      query E e = Inr (UNKNOWN, empty_graph)) \<and>
   (toZ3Expr E e = Inl (Z3Exception c) \<longrightarrow> query E e = Inr (ERROR, empty_graph)) \<and>
   (toZ3Expr E e = Inr z \<and> solver_query E z = Inl (Z3Exception c) \<longrightarrow>
      query E e = Inr (ERROR, empty_graph)) \<and>
   (toZ3Expr E e = Inr z \<and> solver_query E z = Inr sat \<and>
    get_answer E z = Inl (Z3Exception c) \<longrightarrow>
      query E e = Inr (ERROR, empty_graph)) \<and>
   (toZ3Expr E e = Inr z \<and> solver_query E z = Inr sat \<and> get_answer E z = Inr prf \<and>
    cexGraph (to_string E) prf = Inl (Z3Exception c) \<longrightarrow>
      query E e = Inr (ERROR, empty_graph))"
  by (simp add: query_def catch_z3_def ebind_def)

theorem query_outcomes_witness:
  "toZ3Expr sample_engine 1 = Inr (Var 1) \<and> solver_query sample_engine (Var 1) = Inr unsat \<and>
   query sample_engine 1 = Inr (UNSATISFIABLE, empty_graph) \<and>
   toZ3Expr sample_engine 2 = Inr (Var 2) \<and> solver_query sample_engine (Var 2) = Inr unknown \<and>
   query sample_engine 2 = Inr (UNKNOWN, empty_graph) \<and>
   toZ3Expr sample_engine 0 = Inl (Z3Exception Z3_INVALID_ARG) \<and>
   query sample_engine 0 = Inr (ERROR, empty_graph) \<and>
   toZ3Expr sample_engine 3 = Inr (Var 3) \<and>
   solver_query sample_engine (Var 3) = Inl (Z3Exception Z3_INVALID_ARG) \<and>
   query sample_engine 3 = Inr (ERROR, empty_graph) \<and>
   toZ3Expr sample_engine 4 = Inr (Var 4) \<and> solver_query sample_engine (Var 4) = Inr sat \<and>
   get_answer sample_engine (Var 4) = Inl (Z3Exception Z3_INVALID_ARG) \<and>
   query sample_engine 4 = Inr (ERROR, empty_graph) \<and>
   toZ3Expr sample_engine 5 = Inr (Var 5) \<and> solver_query sample_engine (Var 5) = Inr sat \<and>
   get_answer sample_engine (Var 5) = Inr c_false \<and>
   cexGraph (to_string sample_engine) c_false = Inl (Z3Exception Z3_IOB) \<and>
   query sample_engine 5 = Inr (ERROR, empty_graph)"
proof -
  have g: "cexGraph (to_string sample_engine) c_false = Inl (Z3Exception Z3_IOB)"
    by (simp add: cexGraph_def entryChecks_def seed_def ebind_def smtAssert_def fact_of_def
        num_args_def arg_def c_false_def)
  have s: "toZ3Expr sample_engine 1 = Inr (Var 1)" "solver_query sample_engine (Var 1) = Inr unsat"
    "toZ3Expr sample_engine 2 = Inr (Var 2)" "solver_query sample_engine (Var 2) = Inr unknown"
    "toZ3Expr sample_engine 0 = Inl (Z3Exception Z3_INVALID_ARG)"
    "toZ3Expr sample_engine 3 = Inr (Var 3)"
    "solver_query sample_engine (Var 3) = Inl (Z3Exception Z3_INVALID_ARG)"
    "toZ3Expr sample_engine 4 = Inr (Var 4)" "solver_query sample_engine (Var 4) = Inr sat"
    "get_answer sample_engine (Var 4) = Inl (Z3Exception Z3_INVALID_ARG)"
    "toZ3Expr sample_engine 5 = Inr (Var 5)" "solver_query sample_engine (Var 5) = Inr sat"
    "get_answer sample_engine (Var 5) = Inr c_false"
    by (simp_all add: sample_engine_def)
  show ?thesis
    using g s
      query_outcomes [of sample_engine 1 "Var 1"]
      query_outcomes [of sample_engine 2 "Var 2"]
      query_outcomes [of sample_engine 0 _ Z3_INVALID_ARG]
      query_outcomes [of sample_engine 3 "Var 3" Z3_INVALID_ARG]
      query_outcomes [of sample_engine 4 "Var 4" Z3_INVALID_ARG]
      query_outcomes [of sample_engine 5 "Var 5" Z3_IOB c_false]
    by simp
qed

section \<open>addRule\<close>

text \<open>
  C5. When the translation of the rule succeeds, \<^verbatim>\<open>addRule\<close> adds one rule to the
  solver: the translated rule as it is when the registry has no constants, and otherwise
  the translated rule under a universal quantifier over exactly the registry's
  variables, in the registry's order. In both cases the rule is added under the string
  symbol the engine makes of the name: lines 72 and 79 pass the name as a C string, which
  is the name itself unless it contains a NUL character.
\<close>

theorem addRule_spec:
  "toZ3Expr E e = Inr rule \<Longrightarrow>
   addRule E constants solver e ruleName =
     Inr (solver @ [(if constants = [] then rule else forall E (map snd constants) rule,
                     str_symbol (c_str ruleName))]) \<and>
   (CHR 0x00 \<notin> set ruleName \<longrightarrow>
    addRule E constants solver e ruleName =
      Inr (solver @ [(if constants = [] then rule else forall E (map snd constants) rule,
                      str_symbol ruleName)]))"
  by (simp add: addRule_def ebind_def c_str_id)

theorem addRule_spec_witness:
  "toZ3Expr sample_engine 1 = Inr (Var 1) \<and> CHR 0x00 \<notin> set ''init'' \<and>
   CHR 0x00 \<notin> set ''step'' \<and>
   addRule sample_engine [] [] 1 ''init'' = Inr [(Var 1, str_symbol ''init'')] \<and>
   addRule sample_engine [(''x'', zero), (''y'', fQ)] [(Var 1, str_symbol ''init'')] 1 ''step'' =
     Inr [(Var 1, str_symbol ''init''), (Quantifier 100 [zero, fQ] (Var 1), str_symbol ''step'')]"
proof -
  have t: "toZ3Expr sample_engine 1 = Inr (Var 1)"
    by (simp add: sample_engine_def)
  have f: "forall sample_engine [zero, fQ] (Var 1) = Quantifier 100 [zero, fQ] (Var 1)"
    by (simp add: sample_engine_def)
  show ?thesis
    using t f addRule_spec [OF t, of "[]" "[]" "''init''"]
      addRule_spec [OF t, of "[(''x'', zero), (''y'', fQ)]" "[(Var 1, str_symbol ''init'')]" "''step''"]
    by (simp add: c_str_def)
qed

section \<open>No dangling edges\<close>

text \<open>
  C1. When extraction completes, every id in an edge list of the returned graph is a key
  of its node map.
\<close>

theorem no_dangling_edges:
  "cexGraph ts prf = Inr g \<Longrightarrow> edges g k = Some cs \<Longrightarrow> c \<in> set cs \<Longrightarrow> nodes g c \<noteq> None"
proof -
  assume g: "cexGraph ts prf = Inr g" and k: "edges g k = Some cs" and c: "c \<in> set cs"
  from g obtain s where s: "seed ts prf = Inr s" "cexLoop ts s = Inr g"
    by (rule cexGraph_run)
  from cexLoop_final [OF seed_wf(1) [OF s(1)] s(2)] obtain sf where
    f: "wf_state sf" "graph sf = g"
    by blast
  have "set (edges_at g k) \<subseteq> dom (nodes g)"
    using f by (auto simp: wf_state_def)
  with k c show ?thesis
    by (auto simp: edges_at_def)
qed

theorem no_dangling_edges_witness:
  "cexGraph render refutation = Inr sample_graph \<and> edges sample_graph 23 = Some [21, 22] \<and>
   nodes sample_graph 21 \<noteq> None \<and> nodes sample_graph 22 \<noteq> None"
  using sample_run no_dangling_edges [OF sample_run, of 23 "[21, 22]" 21]
    no_dangling_edges [OF sample_run, of 23 "[21, 22]" 22]
  by (simp add: sample_graph_def)

section \<open>The assertion of line 151\<close>

text \<open>
  C9. Every node the loop pops has its entry in the node map already, so the
  assertion of line 151 never fires: no extraction ends with that contract violation.
\<close>

theorem popped_node_is_known: "cexGraph ts prf \<noteq> Inl (SMTLogicError 151)"
proof
  assume a: "cexGraph ts prf = Inl (SMTLogicError 151)"
  have "entryChecks prf \<noteq> Inl (SMTLogicError 151)"
    using fact_of_Inl [of "prf" "SMTLogicError 151"]
    by (auto simp: entryChecks_def ebind_def smtAssert_def split: sum.splits if_splits)
      (metis decl.simps(2,3) error.distinct(1) expr.exhaust sum.inject(1) decl.simps(1) sum.distinct(1))
  moreover have "seed ts prf \<noteq> Inl (SMTLogicError 151)"
    using cexNode_not_151 by (auto simp: seed_def ebind_def arg_def split: sum.splits)
  ultimately obtain s where s: "seed ts prf = Inr s" "cexLoop ts s = Inl (SMTLogicError 151)"
    using a by (auto simp: cexGraph_def ebind_def split: sum.splits)
  from cexLoop_not_151 [OF seed_wf(1) [OF s(1)]] s(2) show False
    by blast
qed

theorem popped_node_is_known_witness:
  "cexGraph render refutation \<noteq> Inl (SMTLogicError 151) \<and>
   cexGraph render nQ \<noteq> Inl (SMTLogicError 151)"
  using popped_node_is_known [of render refutation] popped_node_is_known [of render nQ]
  by simp

section \<open>Termination\<close>

text \<open>
  C6. The loop terminates on every state (the termination proof of \<open>cexLoop\<close>), and,
  thanks to the visited set, no id is popped twice: every node that is pushed is popped
  by a later iteration, so no id is pushed twice, and the number of iterations is at
  most the number of different ids in the proof. When the extraction completes, the
  popped ids are exactly the keys of the node map it returns.
\<close>

theorem each_node_expanded_once:
  "distinct (map id_of (expansion ts prf)) \<and>
   length (expansion ts prf) \<le> card (node_ids prf) \<and>
   (\<forall>g. cexGraph ts prf = Inr g \<longrightarrow> dom (nodes g) = id_of ` set (expansion ts prf))"
  using expansion_bound [of ts "prf"] cexGraph_graph(3) [of ts "prf"] by blast

theorem each_node_expanded_once_witness:
  "distinct (map id_of (expansion render refutation)) \<and>
   length (expansion render refutation) \<le> card (node_ids refutation) \<and>
   map id_of (expansion render refutation) = [23, 22, 20, 21] \<and>
   cexGraph render refutation = Inr sample_graph \<and>
   dom (nodes sample_graph) = id_of ` set (expansion render refutation)"
  using each_node_expanded_once [of render refutation] sample_run
  by (simp add: sample_expansion) (simp add: sample_defs)

section \<open>The edge list of a hyper-resolution node\<close>

text \<open>
  C7. When extraction completes, the edge list of every popped hyper-resolution node with
  \<open>k\<close> arguments is the list of the ids of its arguments at the positions 1 to
  \<open>k - 2\<close>, in that order: position 0 and position \<open>k - 1\<close> give no edge, and every
  premise gives one, whether or not it was met before.
\<close>

theorem hyper_resolve_edges:
  "cexGraph ts prf = Inr g \<Longrightarrow> n \<in> set (expansion ts prf) \<Longrightarrow> is_hyper_resolve n \<Longrightarrow>
   edges_at g (id_of n) = map (\<lambda>i. id_of (args_of n ! i)) [1..<num_args n - 1]"
  using cexGraph_graph(4) [of ts "prf" g n] by (simp add: premises_of_def)

theorem hyper_resolve_edges_witness:
  "cexGraph render refutation = Inr sample_graph \<and> nQ \<in> set (expansion render refutation) \<and>
   is_hyper_resolve nQ \<and> num_args nQ = 4 \<and>
   edges_at sample_graph (id_of nQ) = [id_of nA, id_of nB]"
proof -
  have n: "nQ \<in> set (expansion render refutation)"
    by (simp add: sample_expansion)
  have h: "is_hyper_resolve nQ"
    by (simp add: is_hyper_resolve_def nQ_def hyper_res_def)
  have k: "num_args nQ = 4" "[1..<num_args nQ - 1] = [1, 2]"
    by (simp_all add: num_args_def nQ_def upt_rec)
  show ?thesis
    using n h k sample_run hyper_resolve_edges [OF sample_run n h]
    by (simp add: nQ_def)
qed

section \<open>Shared premises\<close>

text \<open>
  C2, as amended. Let the extraction complete, and let \<open>a\<close> and \<open>b\<close> be two popped
  hyper-resolution nodes with different ids that each list the id \<open>P\<close> at exactly one
  premise position, while no other popped hyper-resolution node lists \<open>P\<close> among its
  premises. Then the node map has exactly one entry for \<open>P\<close>, there is exactly one edge
  from \<open>a\<close> to \<open>P\<close> and one from \<open>b\<close> to \<open>P\<close>, two edges into \<open>P\<close> in all, and
  the node with id \<open>P\<close> is popped, hence expanded, exactly once.
\<close>

theorem shared_premise:
  assumes "cexGraph ts prf = Inr g"
    and "a \<in> set (expansion ts prf)" and "is_hyper_resolve a"
    and "count_list (map id_of (premises_of a)) P = 1"
    and "b \<in> set (expansion ts prf)" and "is_hyper_resolve b"
    and "count_list (map id_of (premises_of b)) P = 1"
    and "id_of a \<noteq> id_of b"
    and "\<forall>n \<in> set (expansion ts prf).
           is_hyper_resolve n \<longrightarrow> id_of n \<noteq> id_of a \<longrightarrow> id_of n \<noteq> id_of b \<longrightarrow>
           P \<notin> id_of ` set (premises_of n)"
  shows "(\<exists>!entry. nodes g P = Some entry) \<and>
         count_list (edges_at g (id_of a)) P = 1 \<and>
         count_list (edges_at g (id_of b)) P = 1 \<and>
         (\<Sum>k \<in> dom (edges g). count_list (edges_at g k) P) = 2 \<and>
         length (filter (\<lambda>n. id_of n = P) (expansion ts prf)) = 1"
proof -
  note G = cexGraph_graph [OF assms(1)]
  let ?f = "\<lambda>k. count_list (edges_at g k) P"
  let ?D = "dom (edges g)"
  have ea: "edges_at g (id_of a) = map id_of (premises_of a)"
    using G(4) [OF assms(2)] assms(3) by simp
  have eb: "edges_at g (id_of b) = map id_of (premises_of b)"
    using G(4) [OF assms(5)] assms(6) by simp
  have fa: "?f (id_of a) = 1" and fb: "?f (id_of b) = 1"
    using assms(4,7) by (simp_all add: ea eb)
  have "P \<in> set (edges_at g (id_of a))"
    using fa count_list_0_iff [of "edges_at g (id_of a)" P] by simp
  then have P: "P \<in> dom (nodes g)"
    using G(2) by blast
  then have 1: "\<exists>!entry. nodes g P = Some entry"
    by auto
  have da: "id_of a \<in> ?D" and db: "id_of b \<in> ?D"
    using fa fb by (auto simp: edges_at_def split: option.splits)
  have rest: "?f k = 0" if "k \<in> ?D - {id_of a} - {id_of b}" for k
  proof (cases "k \<in> id_of ` set (expansion ts prf)")
    case False
    then show ?thesis
      by (simp add: G(5))
  next
    case True
    then obtain n where n: "n \<in> set (expansion ts prf)" "k = id_of n"
      by blast
    with that assms(9) have "is_hyper_resolve n \<longrightarrow> P \<notin> set (map id_of (premises_of n))"
      by auto
    then show ?thesis
      using G(4) [OF n(1)] by (simp add: n(2))
  qed
  have "sum ?f ?D = ?f (id_of a) + sum ?f (?D - {id_of a})"
    by (rule sum.remove [OF G(1) da])
  also have "sum ?f (?D - {id_of a}) = ?f (id_of b) + sum ?f (?D - {id_of a} - {id_of b})"
    using G(1) db assms(8) by (intro sum.remove) auto
  also have "sum ?f (?D - {id_of a} - {id_of b}) = 0"
    using rest by (intro sum.neutral) blast
  finally have 2: "sum ?f ?D = 2"
    by (simp add: fa fb)
  have 3: "length (filter (\<lambda>n. id_of n = P) (expansion ts prf)) = 1"
    using filter_distinct_map [OF G(6)] P by (simp add: G(3))
  show ?thesis
    using 1 fa fb 2 3 by blast
qed

text \<open>
  Without the amendment the claim fails: a parent has one edge to \<open>P\<close> for every
  premise position that holds \<open>P\<close>. In the second sample, \<open>nA2\<close> and \<open>nB\<close> are two
  distinct hyper-resolution parents of \<open>nP\<close>; there are two edges from \<open>nA2\<close> to
  \<open>nP\<close>, and three edges into \<open>nP\<close> in all.
\<close>

theorem shared_premise_counterexample:
  "cexGraph render refutation2 = Inr sample_graph2 \<and>
   expansion render refutation2 = [nQ2, nB, nP, nA2] \<and>
   is_hyper_resolve nA2 \<and> is_hyper_resolve nB \<and> id_of nA2 \<noteq> id_of nB \<and>
   premises_of nA2 = [nP, nP] \<and> premises_of nB = [nP] \<and> id_of nP = 20 \<and>
   edges_at sample_graph2 (id_of nA2) = [20, 20] \<and>
   edges_at sample_graph2 (id_of nB) = [20] \<and>
   (\<Sum>k \<in> dom (edges sample_graph2). count_list (edges_at sample_graph2 k) 20) = 3"
proof -
  have "premises_of nA2 = [nP, nP]" "premises_of nB = [nP]"
    by (simp_all add: premises_butlast_tl nA2_def nB_def)
  moreover have "is_hyper_resolve nA2" "is_hyper_resolve nB"
    by (simp_all add: is_hyper_resolve_def nA2_def nB_def hyper_res_def)
  moreover have "id_of nA2 = 21" "id_of nB = 22" "id_of nP = 20"
    by (simp_all add: nA2_def nB_def nP_def)
  moreover have "edges_at sample_graph2 21 = [20, 20]" "edges_at sample_graph2 22 = [20]"
    by (simp_all add: edges_at_def sample_graph2_def)
  moreover have
    "(\<Sum>k \<in> dom (edges sample_graph2). count_list (edges_at sample_graph2 k) 20) = 3"
    by (simp add: edges_at_def sample_graph2_def)
  ultimately show ?thesis
    using sample_run2 sample_expansion2 by simp
qed

theorem shared_premise_witness:
  "cexGraph render refutation = Inr sample_graph \<and>
   nA \<in> set (expansion render refutation) \<and> nB \<in> set (expansion render refutation) \<and>
   id_of nA \<noteq> id_of nB \<and> is_hyper_resolve nA \<and> is_hyper_resolve nB \<and>
   premises_of nA = [nP] \<and> premises_of nB = [nP] \<and> premises_of nQ = [nA, nB] \<and>
   premises_of nP = [] \<and> id_of nP = 20 \<and>
   (\<exists>!entry. nodes sample_graph 20 = Some entry) \<and>
   count_list (edges_at sample_graph (id_of nA)) 20 = 1 \<and>
   count_list (edges_at sample_graph (id_of nB)) 20 = 1 \<and>
   (\<Sum>k \<in> dom (edges sample_graph). count_list (edges_at sample_graph k) 20) = 2 \<and>
   length (filter (\<lambda>n. id_of n = 20) (expansion render refutation)) = 1"
proof -
  have p: "premises_of nA = [nP]" "premises_of nB = [nP]" "premises_of nQ = [nA, nB]"
    "premises_of nP = []"
    by (simp_all add: premises_butlast_tl nA_def nB_def nQ_def nP_def)
  have i: "id_of nP = 20" "id_of nA = 21" "id_of nB = 22" "id_of nQ = 23"
    by (simp_all add: nP_def nA_def nB_def nQ_def)
  have h: "is_hyper_resolve nA" "is_hyper_resolve nB"
    by (simp_all add: is_hyper_resolve_def nA_def nB_def hyper_res_def)
  have m: "nA \<in> set (expansion render refutation)" "nB \<in> set (expansion render refutation)"
    by (simp_all add: sample_expansion)
  have c: "count_list (map id_of (premises_of nA)) 20 = 1"
    "count_list (map id_of (premises_of nB)) 20 = 1"
    by (simp_all add: p i)
  have d: "id_of nA \<noteq> id_of nB"
    by (simp add: i)
  have o: "\<forall>n \<in> set (expansion render refutation).
      is_hyper_resolve n \<longrightarrow> id_of n \<noteq> id_of nA \<longrightarrow> id_of n \<noteq> id_of nB \<longrightarrow>
      20 \<notin> id_of ` set (premises_of n)"
    by (simp add: sample_expansion p i)
  show ?thesis
    using shared_premise [OF sample_run m(1) h(1) c(1) m(2) h(2) c(2) d o] sample_run m d h p i(1)
    by simp
qed

end
